theory Spec2Isabelle
  imports
    Main
    "HOL-Library.AList"
    "HOL-Library.Char_ord"
    "HOL-Library.List_Lexorder"
    "HOL-Library.Sublist"
    "HOL-Library.Word"
begin

section \<open>Sanitised component configs (lib/util/config/sanitised.go)\<close>

text \<open>
  The file has three functions: \<open>SanitizeComponent\<close>, which reduces a component config
  to its \<open>type\<close> field and the one sub-config that belongs to that type, and the two
  marshalling hooks \<open>MarshalYAML\<close> and \<open>MarshalJSON\<close> of the resulting map type
  \<open>Sanitised\<close>, which both put the \<open>type\<close> field first.

  The YAML and JSON encoders are library code (\<open>gopkg.in/yaml.v3\<close>,
  \<open>encoding/json\<close>). They are arguments of the functions below, so that every theorem
  holds for every encoder, failing ones included.
\<close>

subsection \<open>Data\<close>

text \<open>
  A Go \<open>interface{}\<close> holding generic config data: \<open>nil\<close>, a scalar, a string, a
  sequence or a mapping. A \<open>float64\<close> is carried as its 64 bits and never interpreted.
  The code itself only asks whether a value is \<open>nil\<close> and whether it is a string.
\<close>

datatype gvalue =
    VNull
  | VBool bool
  | VInt int
  | VFloat "64 word"
  | VString string
  | VSeq "gvalue list"
  | VMap "(gvalue \<times> gvalue) list"

text \<open>
  \<open>type Sanitised map[string]interface{}\<close>. A Go map has no order of its own, but every
  \<open>range\<close> loop visits its entries in some order, each key once. A \<open>Sanitised\<close> is the
  list of the entries in the order the loop visits them; a list that stands for a map has
  pairwise distinct keys (\<open>distinct (map fst s)\<close>), and two lists stand for the same map
  when \<open>map_of\<close> agrees on them.
\<close>

type_synonym Sanitised = "(string \<times> gvalue) list"

text \<open>The index expression \<open>s[k]\<close>: the zero value \<open>nil\<close> when the key is missing.\<close>

definition map_index :: "Sanitised \<Rightarrow> string \<Rightarrow> gvalue" where
  "map_index s k = (case map_of s k of None \<Rightarrow> VNull | Some v \<Rightarrow> v)"

text \<open>
  The errors of \<open>SanitizeComponent\<close>: an error of the YAML library, passed on as it is,
  or \<open>errors.New("attempted to sanitize config without a type field")\<close>.
\<close>

datatype 'e error = LibError 'e | ErrNoTypeField

subsection \<open>SanitizeComponent\<close>

text \<open>
  \<open>yaml_Marshal\<close> and \<open>yaml_Unmarshal\<close> are the two library calls. \<open>hashMap\<close> is only
  ever indexed, so it is a partial function; a key that is present with the value \<open>nil\<close>
  is \<open>Some VNull\<close>, a missing key is \<open>None\<close>. The type assertion
  \<open>hashMap["type"].(string)\<close> succeeds on a string and on nothing else. The assignments
  to \<open>sanitMap\<close> are \<open>AList.update\<close>, which overwrites the value of a key that is
  already there.
\<close>

definition SanitizeComponent ::
  "('c \<Rightarrow> 'e + string) \<Rightarrow> (string \<Rightarrow> 'e + (string \<rightharpoonup> gvalue)) \<Rightarrow> 'c \<Rightarrow> 'e error + Sanitised"
where
  "SanitizeComponent yaml_Marshal yaml_Unmarshal conf =
     (case yaml_Marshal conf of
        Inl err \<Rightarrow> Inl (LibError err)
      | Inr cBytes \<Rightarrow>
          (case yaml_Unmarshal cBytes of
             Inl err \<Rightarrow> Inl (LibError err)
           | Inr hashMap \<Rightarrow>
               (case hashMap ''type'' of
                  Some (VString typeStr) \<Rightarrow>
                    (let sanitMap = AList.update ''type'' (VString typeStr) [] in
                     case hashMap typeStr of
                       Some v \<Rightarrow> Inr (AList.update typeStr v sanitMap)
                     | None \<Rightarrow>
                         (case hashMap ''plugin'' of
                            Some pluginConf \<Rightarrow>
                              if pluginConf \<noteq> VNull
                              then Inr (AList.update ''plugin'' pluginConf sanitMap)
                              else Inr sanitMap
                          | None \<Rightarrow> Inr sanitMap))
                | _ \<Rightarrow> Inl ErrNoTypeField)))"

subsection \<open>MarshalYAML\<close>

text \<open>
  The loop \<open>for k, v := range s\<close> of \<open>MarshalYAML\<close>, with the loop state
  \<open>(dynObj, typeVal)\<close>.
\<close>

fun range_yaml :: "Sanitised \<Rightarrow> Sanitised \<times> gvalue \<Rightarrow> Sanitised \<times> gvalue" where
  "range_yaml [] st = st"
| "range_yaml ((k, v) # rest) (dynObj, typeVal) =
     (if k = ''type'' then range_yaml rest (dynObj, v)
      else range_yaml rest (AList.update k v dynObj, typeVal))"

text \<open>
  \<open>MarshalYAML\<close> returns an anonymous struct for the YAML encoder to walk. The struct is
  given by its fields in the order of declaration: a field with a name tag
  (\<open>Type interface{} `yaml:"type"`\<close>, no \<open>omitempty\<close>) and an embedded map tagged
  \<open>`yaml:",inline"`\<close>.
\<close>

datatype yaml_field = NamedField string gvalue | InlineMap Sanitised

definition MarshalYAML :: "Sanitised \<Rightarrow> 'e + yaml_field list" where
  "MarshalYAML s =
     (case range_yaml s ([], VNull) of
        (dynObj, typeVal) \<Rightarrow> Inr [NamedField ''type'' typeVal, InlineMap dynObj])"

subsection \<open>MarshalJSON\<close>

text \<open>The first loop of \<open>MarshalJSON\<close>, with the loop state \<open>(keys, typeVal)\<close>.\<close>

fun range_json :: "Sanitised \<Rightarrow> string list \<times> gvalue \<Rightarrow> string list \<times> gvalue" where
  "range_json [] st = st"
| "range_json ((k, v) # rest) (keys, typeVal) =
     (if k = ''type'' then range_json rest (keys, v)
      else range_json rest (keys @ [k], typeVal))"

text \<open>
  The second loop, \<open>for i, k := range keys\<close>: \<open>n\<close> is \<open>len(keys)\<close>, \<open>i\<close> the index of
  the head of the keys still to be written, \<open>buf\<close> the buffer so far. A failing
  \<open>json.Marshal\<close> returns from the function with the error alone.
\<close>

fun write_keys ::
  "(gvalue \<Rightarrow> 'e + string) \<Rightarrow> Sanitised \<Rightarrow> nat \<Rightarrow> nat \<Rightarrow> string list \<Rightarrow> string \<Rightarrow> 'e + string"
where
  "write_keys json_Marshal s n i [] buf = Inr buf"
| "write_keys json_Marshal s n i (k # ks) buf =
     (case json_Marshal (map_index s k) of
        Inl err \<Rightarrow> Inl err
      | Inr valBytes \<Rightarrow>
          write_keys json_Marshal s n (i + 1) ks
            (buf @ ''\"'' @ k @ ''\":'' @ valBytes @ (if int i < int n - 1 then '','' else '''')))"

text \<open>The block guarded by \<open>typeVal != nil\<close>.\<close>

definition write_type ::
  "(gvalue \<Rightarrow> 'e + string) \<Rightarrow> gvalue \<Rightarrow> string list \<Rightarrow> string \<Rightarrow> 'e + string"
where
  "write_type json_Marshal typeVal keys buf =
     (if typeVal \<noteq> VNull then
        (case json_Marshal typeVal of
           Inl err \<Rightarrow> Inl err
         | Inr typeBytes \<Rightarrow>
             Inr (buf @ ''\"type\":'' @ typeBytes @ (if length keys > 0 then '','' else '''')))
      else Inr buf)"

definition MarshalJSON :: "(gvalue \<Rightarrow> 'e + string) \<Rightarrow> Sanitised \<Rightarrow> 'e + string" where
  "MarshalJSON json_Marshal s =
     (case range_json s ([], VNull) of
        (keys0, typeVal) \<Rightarrow>
          (let keys = sort keys0 in
           case write_type json_Marshal typeVal keys ''{'' of
             Inl err \<Rightarrow> Inl err
           | Inr buf \<Rightarrow>
               (case write_keys json_Marshal s (length keys) 0 keys buf of
                  Inl err \<Rightarrow> Inl err
                | Inr buf' \<Rightarrow> Inr (buf' @ ''}''))))"

subsection \<open>The output format, as the specification words it\<close>

text \<open>
  The specification gives the JSON output as the template
  \<open>{"type":<V>,<"k1":<V1>,...>}\<close>: an opening brace, the pairs separated by single
  commas, a closing brace, and nothing else. \<open>comma_join\<close> puts a comma between
  neighbours only, \<open>json_pair\<close> is one \<open>"key":value\<close> pair, and \<open>FormatB\<close> is the
  template for an optional encoded type value and the encoded other pairs.
\<close>

fun comma_join :: "string list \<Rightarrow> string" where
  "comma_join [] = ''''"
| "comma_join [x] = x"
| "comma_join (x # y # ys) = x @ '','' @ comma_join (y # ys)"

definition json_pair :: "string \<Rightarrow> string \<Rightarrow> string" where
  "json_pair k V = ''\"'' @ k @ ''\":'' @ V"

definition FormatB :: "string option \<Rightarrow> (string \<times> string) list \<Rightarrow> string" where
  "FormatB typeBytes others =
     ''{'' @
     comma_join
       ((case typeBytes of None \<Rightarrow> [] | Some V \<Rightarrow> [json_pair ''type'' V]) @
        map (\<lambda>(k, V). json_pair k V) others) @
     ''}''"

text \<open>The non-type keys of a record, in ascending byte order.\<close>

definition other_keys :: "Sanitised \<Rightarrow> string list" where
  "other_keys s = sorted_list_of_set (fst ` set s - {''type''})"

subsection \<open>Well-formed JSON objects\<close>

text \<open>
  What it means for the output to be a JSON object, after the grammar of RFC 8259:
  \<open>object = "{" ws "}" | "{" member ("," member)* "}"\<close> and
  \<open>member = ws string ws ":" ws value ws\<close>, where \<open>ws\<close> is a run of spaces, tabs, line
  feeds and carriage returns and \<open>string\<close> is a double quote, the string contents, and
  a double quote. \<open>json_chars\<close> accepts the contents of a string: any byte from
  \<open>0x20\<close> on except the double quote and the backslash, and the escapes: a
  backslash followed by a double quote, a backslash, a slash, one of the letters
  \<open>b f n r t\<close>, or the letter \<open>u\<close> and four hexadecimal digits. The grammar of
  values belongs to the encoder, so it is the argument \<open>wfv\<close>; \<open>any_bytes\<close> is the
  weakest choice, under which every byte string counts as a value.
\<close>

definition json_ws :: "string \<Rightarrow> bool" where
  "json_ws w = list_all (\<lambda>c. c \<in> set [CHR 0x20, CHR 0x09, CHR 0x0A, CHR 0x0D]) w"

definition json_hex :: "char \<Rightarrow> bool" where
  "json_hex c = (c \<in> set ''0123456789abcdefABCDEF'')"

fun json_chars :: "string \<Rightarrow> bool" where
  "json_chars [] = True"
| "json_chars (c # cs) =
     (if c = CHR 0x5C then
        (case cs of
           [] \<Rightarrow> False
         | e # cs' \<Rightarrow>
             if e = CHR ''u'' then
               (case cs' of
                  h1 # h2 # h3 # h4 # cs'' \<Rightarrow>
                    json_hex h1 \<and> json_hex h2 \<and> json_hex h3 \<and> json_hex h4 \<and> json_chars cs''
                | _ \<Rightarrow> False)
             else e \<in> set [CHR 0x22, CHR 0x5C, CHR ''/'', CHR ''b'', CHR ''f'', CHR ''n'',
                            CHR ''r'', CHR ''t''] \<and> json_chars cs')
      else c \<noteq> CHR 0x22 \<and> 32 \<le> (of_char c :: nat) \<and> json_chars cs)"

definition json_member :: "(string \<Rightarrow> bool) \<Rightarrow> string \<Rightarrow> bool" where
  "json_member wfv m \<longleftrightarrow>
     (\<exists>w1 k w2 w3 v w4.
        m = w1 @ ''\"'' @ k @ ''\"'' @ w2 @ '':'' @ w3 @ v @ w4 \<and>
        json_ws w1 \<and> json_chars k \<and> json_ws w2 \<and> json_ws w3 \<and> wfv v \<and> json_ws w4)"

definition json_object :: "(string \<Rightarrow> bool) \<Rightarrow> string \<Rightarrow> bool" where
  "json_object wfv s \<longleftrightarrow>
     (\<exists>w. json_ws w \<and> s = ''{'' @ w @ ''}'') \<or>
     (\<exists>ms. ms \<noteq> [] \<and> list_all (json_member wfv) ms \<and> s = ''{'' @ comma_join ms @ ''}'')"

definition any_bytes :: "string \<Rightarrow> bool" where
  "any_bytes v = True"

subsection \<open>An encoder for concrete inputs\<close>

text \<open>
  Concrete runs need some encoder in the place of \<open>json.Marshal\<close>. This one writes
  \<open>nil\<close>, booleans and strings of plain characters the way JSON does, and fails on
  every other value, as \<open>json.Marshal\<close> fails on a value it does not support.
\<close>

fun demo_Marshal :: "gvalue \<Rightarrow> string + string" where
  "demo_Marshal VNull = Inr ''null''"
| "demo_Marshal (VBool b) = Inr (if b then ''true'' else ''false'')"
| "demo_Marshal (VString x) = Inr (''\"'' @ x @ ''\"'')"
| "demo_Marshal v = Inl ''json: unsupported value''"

section \<open>Properties\<close>

subsection \<open>The loops of MarshalJSON\<close>

lemma range_json_keys:
  "fst (range_json s (ks, tv)) = ks @ filter (\<lambda>k. k \<noteq> ''type'') (map fst s)"
  by (induction s arbitrary: ks tv) auto

lemma range_json_type:
  "distinct (map fst s) \<Longrightarrow>
   snd (range_json s (ks, tv)) = (case map_of s ''type'' of None \<Rightarrow> tv | Some v \<Rightarrow> v)"
proof (induction s arbitrary: ks tv)
  case Nil
  then show ?case by simp
next
  case (Cons p s)
  obtain k v where p: "p = (k, v)" by (cases p)
  show ?case
  proof (cases "k = ''type''")
    case True
    with Cons.prems p have "''type'' \<notin> fst ` set s" by auto
    then have "map_of s ''type'' = None" by (simp add: map_of_eq_None_iff)
    with Cons p True show ?thesis by simp
  next
    case False
    with Cons p show ?thesis by simp
  qed
qed

lemma sort_other_keys:
  assumes "distinct (map fst s)"
  shows "sort (filter (\<lambda>k. k \<noteq> ''type'') (map fst s)) = other_keys s"
proof -
  let ?ks = "filter (\<lambda>k. k \<noteq> ''type'') (map fst s)"
  have "distinct ?ks" using assms by simp
  moreover have "set ?ks = fst ` set s - {''type''}" by auto
  ultimately show ?thesis
    unfolding other_keys_def
    by (metis sorted_list_of_set_sort_remdups distinct_remdups_id)
qed

lemma comma_join_Cons:
  "comma_join (x # xs) = x @ (if xs = [] then '''' else '','' @ comma_join xs)"
  by (cases xs) auto

lemma write_keys_ok:
  "\<forall>k\<in>set ks. enc (map_index s k) = Inr (val k) \<Longrightarrow>
   write_keys enc s (i + length ks) i ks buf =
     Inr (buf @ comma_join (map (\<lambda>k. json_pair k (val k)) ks))"
proof (induction ks arbitrary: i buf)
  case Nil
  then show ?case by simp
next
  case (Cons k ks)
  let ?buf = "buf @ json_pair k (val k) @ (if ks = [] then '''' else '','')"
  have "write_keys enc s (i + length (k # ks)) i (k # ks) buf =
        write_keys enc s (Suc i + length ks) (Suc i) ks ?buf"
    using Cons.prems by (simp add: json_pair_def)
  also have "\<dots> = Inr (?buf @ comma_join (map (\<lambda>k. json_pair k (val k)) ks))"
    using Cons.prems by (intro Cons.IH) simp
  also have "\<dots> = Inr (buf @ comma_join (map (\<lambda>k. json_pair k (val k)) (k # ks)))"
    by (simp add: comma_join_Cons)
  finally show ?case .
qed

lemma write_keys_fail:
  "k \<in> set ks \<Longrightarrow> enc (map_index s k) = Inl e \<Longrightarrow>
   \<exists>k'\<in>set ks. \<exists>e'. write_keys enc s n i ks buf = Inl e' \<and> enc (map_index s k') = Inl e'"
proof (induction ks arbitrary: i buf)
  case Nil
  then show ?case by simp
next
  case (Cons a ks)
  show ?case
  proof (cases "enc (map_index s a)")
    case (Inl e')
    then show ?thesis by auto
  next
    case (Inr b)
    with Cons.prems have "k \<in> set ks" by auto
    from Cons.IH[OF this Cons.prems(2)] Inr show ?thesis by auto
  qed
qed

lemma write_keys_Inr_all:
  assumes "write_keys enc s n i ks buf = Inr out" "k \<in> set ks"
  shows "\<exists>b. enc (map_index s k) = Inr b"
proof (cases "enc (map_index s k)")
  case (Inl e)
  have "\<exists>k'\<in>set ks. \<exists>e'. write_keys enc s n i ks buf = Inl e' \<and> enc (map_index s k') = Inl e'"
    using assms(2) Inl by (rule write_keys_fail)
  with assms(1) show ?thesis by auto
next
  case (Inr b)
  then show ?thesis by simp
qed

lemma write_keys_cong:
  "map_of s = map_of s' \<Longrightarrow> write_keys enc s n i ks buf = write_keys enc s' n i ks buf"
  by (induction ks arbitrary: i buf) (auto simp: map_index_def split: sum.splits)


lemma range_json_start:
  assumes "distinct (map fst s)"
  shows "range_json s ([], VNull) =
         (filter (\<lambda>k. k \<noteq> ''type'') (map fst s), map_index s ''type'')"
proof -
  have "fst (range_json s ([], VNull)) = filter (\<lambda>k. k \<noteq> ''type'') (map fst s)"
    by (simp add: range_json_keys)
  moreover have "snd (range_json s ([], VNull)) = map_index s ''type''"
    using assms by (simp add: range_json_type map_index_def)
  ultimately show ?thesis by (simp add: prod_eq_iff)
qed

lemma MarshalJSON_unfold:
  assumes "distinct (map fst s)"
  shows "MarshalJSON enc s =
         (case write_type enc (map_index s ''type'') (other_keys s) ''{'' of
            Inl err \<Rightarrow> Inl err
          | Inr buf \<Rightarrow>
              (case write_keys enc s (length (other_keys s)) 0 (other_keys s) buf of
                 Inl err \<Rightarrow> Inl err
               | Inr buf' \<Rightarrow> Inr (buf' @ ''}'')))"
  by (simp only: MarshalJSON_def range_json_start[OF assms] prod.case Let_def
      sort_other_keys[OF assms])

lemma MarshalJSON_layout:
  assumes dist: "distinct (map fst s)"
    and tyv: "map_index s ''type'' \<noteq> VNull \<Longrightarrow> enc (map_index s ''type'') = Inr V"
    and others: "\<forall>k\<in>set (other_keys s). enc (map_index s k) = Inr (val k)"
  shows "MarshalJSON enc s =
         Inr (FormatB (if map_index s ''type'' = VNull then None else Some V)
                (map (\<lambda>k. (k, val k)) (other_keys s)))"
proof -
  let ?ks = "other_keys s"
  let ?body = "comma_join (map (\<lambda>k. json_pair k (val k)) ?ks)"
  have wk: "write_keys enc s (length ?ks) 0 ?ks buf = Inr (buf @ ?body)" for buf
    using write_keys_ok[OF others, of 0 buf] by simp
  have t: "json_pair ''type'' V = ''\"type\":'' @ V"
    by (simp add: json_pair_def)
  have m: "map (\<lambda>(k, V). json_pair k V) (map (\<lambda>k. (k, val k)) ?ks) =
           map (\<lambda>k. json_pair k (val k)) ?ks"
    by (simp add: comp_def)
  show ?thesis
  proof (cases "map_index s ''type'' = VNull")
    case True
    then show ?thesis
      using dist by (simp add: MarshalJSON_unfold write_type_def wk FormatB_def m del: map_map)
  next
    case False
    with tyv have e: "enc (map_index s ''type'') = Inr V" by simp
    show ?thesis
      using dist False e
      by (simp add: MarshalJSON_unfold write_type_def wk FormatB_def m comma_join_Cons t
          del: map_map)
  qed
qed

lemma MarshalJSON_Inr_type:
  assumes "distinct (map fst s)" "MarshalJSON enc s = Inr out" "map_index s ''type'' \<noteq> VNull"
  shows "\<exists>V. enc (map_index s ''type'') = Inr V"
  using assms by (simp add: MarshalJSON_unfold write_type_def split: sum.splits)

lemma MarshalJSON_Inr_others:
  assumes "distinct (map fst s)" "MarshalJSON enc s = Inr out" "k \<in> set (other_keys s)"
  shows "\<exists>b. enc (map_index s k) = Inr b"
  using assms
  by (auto simp: MarshalJSON_unfold split: sum.splits dest: write_keys_Inr_all)

lemma set_other_keys: "set (other_keys s) = fst ` set s - {''type''}"
  by (simp add: other_keys_def)

lemma sorted_other_keys: "sorted_wrt (<) (other_keys s)"
  by (simp add: other_keys_def)

lemma map_index_entry:
  "distinct (map fst s) \<Longrightarrow> (k, v) \<in> set s \<Longrightarrow> map_index s k = v"
  by (simp add: map_index_def)

lemma map_index_key:
  assumes "k \<in> fst ` set s"
  shows "(k, map_index s k) \<in> set s"
proof -
  from assms obtain v where "map_of s k = Some v"
    by (metis domD dom_map_of_conv_image_fst)
  then show ?thesis
    by (simp add: map_index_def map_of_SomeD)
qed

lemma map_index_not_nil:
  "map_index s k \<noteq> VNull \<Longrightarrow> (k, map_index s k) \<in> set s"
  by (auto simp: map_index_def split: option.splits dest: map_of_SomeD)

lemma comma_join_elem:
  "x \<in> set xs \<Longrightarrow> \<exists>pre post. comma_join xs = pre @ x @ post"
proof (induction xs rule: comma_join.induct)
  case 1
  then show ?case by simp
next
  case (2 y)
  then have "comma_join [y] = [] @ x @ []" by simp
  then show ?case by blast
next
  case (3 y z zs)
  show ?case
  proof (cases "x = y")
    case True
    then have "comma_join (y # z # zs) = [] @ x @ ('','' @ comma_join (z # zs))" by simp
    then show ?thesis by blast
  next
    case False
    with 3 obtain pre post where "comma_join (z # zs) = pre @ x @ post" by auto
    then have "comma_join (y # z # zs) = (y @ '','' @ pre) @ x @ post" by simp
    then show ?thesis by blast
  qed
qed

lemma MarshalJSON_Inr_layout:
  assumes dist: "distinct (map fst s)" and ok: "MarshalJSON enc s = Inr out"
  shows "out = FormatB (if map_index s ''type'' = VNull then None
                        else Some (projr (enc (map_index s ''type''))))
                 (map (\<lambda>k. (k, projr (enc (map_index s k)))) (other_keys s))"
proof -
  have a: "map_index s ''type'' \<noteq> VNull \<Longrightarrow>
           enc (map_index s ''type'') = Inr (projr (enc (map_index s ''type'')))"
    using MarshalJSON_Inr_type[OF dist ok] by auto
  have b: "\<forall>k\<in>set (other_keys s). enc (map_index s k) = Inr (projr (enc (map_index s k)))"
    using MarshalJSON_Inr_others[OF dist ok] by fastforce
  from MarshalJSON_layout[of s enc "projr (enc (map_index s ''type''))"
      "\<lambda>k. projr (enc (map_index s k))", OF dist a b] ok
  show ?thesis by simp
qed

lemma MarshalJSON_fail_type:
  assumes "distinct (map fst s)" "map_index s ''type'' \<noteq> VNull"
    "enc (map_index s ''type'') = Inl e"
  shows "MarshalJSON enc s = Inl e"
  using assms by (simp add: MarshalJSON_unfold write_type_def)

lemma MarshalJSON_fail_other:
  assumes dist: "distinct (map fst s)" and k: "k \<in> set (other_keys s)"
    and e: "enc (map_index s k) = Inl e"
  shows "\<exists>k' e'. MarshalJSON enc s = Inl e' \<and> enc (map_index s k') = Inl e' \<and>
           (k' \<in> set (other_keys s) \<or> k' = ''type'' \<and> map_index s ''type'' \<noteq> VNull)"
proof (cases "write_type enc (map_index s ''type'') (other_keys s) ''{''")
  case (Inl e')
  then have "map_index s ''type'' \<noteq> VNull \<and> enc (map_index s ''type'') = Inl e'"
    by (auto simp: write_type_def split: if_splits sum.splits)
  moreover have "MarshalJSON enc s = Inl e'"
    using dist Inl by (simp add: MarshalJSON_unfold)
  ultimately show ?thesis by blast
next
  case (Inr buf)
  have "\<exists>k'\<in>set (other_keys s). \<exists>e'.
          write_keys enc s (length (other_keys s)) 0 (other_keys s) buf = Inl e' \<and>
          enc (map_index s k') = Inl e'"
    using k e by (rule write_keys_fail)
  then obtain k' e' where "k' \<in> set (other_keys s)"
    "write_keys enc s (length (other_keys s)) 0 (other_keys s) buf = Inl e'"
    "enc (map_index s k') = Inl e'"
    by blast
  moreover from this have "MarshalJSON enc s = Inl e'"
    using dist Inr by (simp add: MarshalJSON_unfold)
  ultimately show ?thesis by blast
qed

subsection \<open>MarshalJSON: the type field comes first\<close>

lemma FormatB_Some:
  "FormatB (Some V) others =
     ''{\"type\":'' @ V @
     (if others = [] then '''' else '','' @ comma_join (map (\<lambda>(k, V). json_pair k V) others)) @
     ''}''"
proof -
  have "json_pair ''type'' V = ''\"type\":'' @ V"
    by (simp add: json_pair_def)
  then show ?thesis
    by (simp add: FormatB_def comma_join_Cons)
qed

lemma FormatB_None:
  "FormatB None others = ''{'' @ comma_join (map (\<lambda>(k, V). json_pair k V) others) @ ''}''"
  by (simp add: FormatB_def)

text \<open>
  C2. When the \<open>type\<close> value of a record is not \<open>nil\<close>, every output of
  \<open>MarshalJSON\<close> starts with the opening brace followed at once by \<open>"type":\<close> and the
  encoded type value: the type field is the first pair, whatever other keys there are.
\<close>

theorem MarshalJSON_type_first:
  assumes "distinct (map fst s)"
    and "map_of s ''type'' = Some v"
    and "v \<noteq> VNull"
    and "MarshalJSON json_Marshal s = Inr out"
  shows "\<exists>V rest. json_Marshal v = Inr V \<and> out = ''{\"type\":'' @ V @ rest"
proof -
  have v: "map_index s ''type'' = v"
    using assms(2) by (simp add: map_index_def)
  obtain V where V: "json_Marshal v = Inr V"
    using MarshalJSON_Inr_type[OF assms(1,4)] assms(3) v by auto
  let ?others = "map (\<lambda>k. (k, projr (json_Marshal (map_index s k)))) (other_keys s)"
  have "out = FormatB (Some V) ?others"
    using MarshalJSON_Inr_layout[OF assms(1,4)] v V assms(3) by simp
  then have "out = ''{\"type\":'' @ V @
      ((if ?others = [] then '''' else '','' @ comma_join (map (\<lambda>(k, V). json_pair k V) ?others))
        @ ''}'')"
    by (simp only: FormatB_Some)
  with V show ?thesis by blast
qed

theorem MarshalJSON_type_first_witness:
  "MarshalJSON demo_Marshal
     [(''plugin'', VString ''p''), (''a'', VBool True), (''type'', VString ''custom'')] =
     Inr ''{\"type\":\"custom\",\"a\":true,\"plugin\":\"p\"}'' \<and>
   (\<exists>V rest. demo_Marshal (VString ''custom'') = Inr V \<and>
      ''{\"type\":\"custom\",\"a\":true,\"plugin\":\"p\"}'' = ''{\"type\":'' @ V @ rest)"
proof -
  let ?s = "[(''plugin'', VString ''p''), (''a'', VBool True), (''type'', VString ''custom'')]"
  have run: "MarshalJSON demo_Marshal ?s =
             Inr ''{\"type\":\"custom\",\"a\":true,\"plugin\":\"p\"}''"
    by (simp add: MarshalJSON_def write_type_def map_index_def)
  have d: "distinct (map fst ?s)" by simp
  have t: "map_of ?s ''type'' = Some (VString ''custom'')" by simp
  have n: "VString ''custom'' \<noteq> VNull" by simp
  from MarshalJSON_type_first[OF d t n run] run show ?thesis by simp
qed

subsection \<open>MarshalJSON: determinism and key order\<close>

lemma other_keys_cong:
  assumes "map_of s = map_of s'"
  shows "other_keys s = other_keys s'"
proof -
  have "fst ` set s = dom (map_of s)" "fst ` set s' = dom (map_of s')"
    by (simp_all add: dom_map_of_conv_image_fst)
  with assms show ?thesis by (simp add: other_keys_def)
qed

text \<open>
  C5. \<open>MarshalJSON\<close> is deterministic. Two runs over the same map give the same
  result, whatever order each run's \<open>range\<close> loop visits the entries in; and in every
  output the non-type pairs stand in strictly ascending byte order of their keys, each
  non-type key of the record once.
\<close>

theorem MarshalJSON_deterministic:
  assumes "distinct (map fst s)" and "distinct (map fst s')" and "map_of s = map_of s'"
  shows "MarshalJSON json_Marshal s = MarshalJSON json_Marshal s' \<and>
         (\<forall>out. MarshalJSON json_Marshal s = Inr out \<longrightarrow>
            (\<exists>typeBytes val.
               (\<forall>k\<in>set (other_keys s). json_Marshal (map_index s k) = Inr (val k)) \<and>
               out = FormatB typeBytes (map (\<lambda>k. (k, val k)) (other_keys s)))) \<and>
         sorted_wrt (<) (other_keys s) \<and>
         set (other_keys s) = fst ` set s - {''type''}"
proof -
  have idx: "map_index s = map_index s'"
    using assms(3) by (simp add: map_index_def fun_eq_iff)
  have "MarshalJSON json_Marshal s = MarshalJSON json_Marshal s'"
    by (simp only: MarshalJSON_unfold[OF assms(1)] MarshalJSON_unfold[OF assms(2)]
        other_keys_cong[OF assms(3)] idx write_keys_cong[OF assms(3)])
  moreover have "\<exists>typeBytes val.
      (\<forall>k\<in>set (other_keys s). json_Marshal (map_index s k) = Inr (val k)) \<and>
      out = FormatB typeBytes (map (\<lambda>k. (k, val k)) (other_keys s))"
    if ok: "MarshalJSON json_Marshal s = Inr out" for out
  proof (intro exI conjI)
    show "\<forall>k\<in>set (other_keys s).
            json_Marshal (map_index s k) = Inr (projr (json_Marshal (map_index s k)))"
      using MarshalJSON_Inr_others[OF assms(1) ok] by fastforce
    show "out = FormatB (if map_index s ''type'' = VNull then None
                         else Some (projr (json_Marshal (map_index s ''type''))))
                  (map (\<lambda>k. (k, projr (json_Marshal (map_index s k)))) (other_keys s))"
      by (rule MarshalJSON_Inr_layout[OF assms(1) ok])
  qed
  ultimately show ?thesis
    by (simp add: sorted_other_keys set_other_keys)
qed

theorem MarshalJSON_deterministic_witness:
  "MarshalJSON demo_Marshal
     [(''zeta'', VNull), (''type'', VString ''t''), (''Alpha'', VBool False), (''beta'', VString ''b'')] =
   MarshalJSON demo_Marshal
     [(''beta'', VString ''b''), (''Alpha'', VBool False), (''zeta'', VNull), (''type'', VString ''t'')] \<and>
   MarshalJSON demo_Marshal
     [(''zeta'', VNull), (''type'', VString ''t''), (''Alpha'', VBool False), (''beta'', VString ''b'')] =
   Inr ''{\"type\":\"t\",\"Alpha\":false,\"beta\":\"b\",\"zeta\":null}'' \<and>
   other_keys
     [(''zeta'', VNull), (''type'', VString ''t''), (''Alpha'', VBool False), (''beta'', VString ''b'')] =
   [''Alpha'', ''beta'', ''zeta'']"
proof -
  let ?s = "[(''zeta'', VNull), (''type'', VString ''t''), (''Alpha'', VBool False),
             (''beta'', VString ''b'')]"
  let ?s' = "[(''beta'', VString ''b''), (''Alpha'', VBool False), (''zeta'', VNull),
              (''type'', VString ''t'')]"
  have d: "distinct (map fst ?s)" and d': "distinct (map fst ?s')" by simp_all
  have m: "map_of ?s = map_of ?s'" by (auto simp: fun_eq_iff)
  have run: "MarshalJSON demo_Marshal ?s =
             Inr ''{\"type\":\"t\",\"Alpha\":false,\"beta\":\"b\",\"zeta\":null}''"
    by (simp add: MarshalJSON_def write_type_def map_index_def)
  have ks: "other_keys ?s = sort [''zeta'', ''Alpha'', ''beta'']"
    using sort_other_keys[OF d] by simp
  from MarshalJSON_deterministic[OF d d' m, of demo_Marshal] run ks show ?thesis by simp
qed

subsection \<open>MarshalJSON: failures and the output template\<close>

text \<open>
  C6. If \<open>json.Marshal\<close> fails on a value that \<open>MarshalJSON\<close> encodes (the type value
  when it is not \<open>nil\<close>, or the value of any other key), then \<open>MarshalJSON\<close> returns an
  error and no bytes; the error is the one \<open>json.Marshal\<close> gave for an entry of the record.
\<close>

theorem MarshalJSON_fails_whole:
  assumes "distinct (map fst s)"
    and "(k, v) \<in> set s"
    and "k = ''type'' \<longrightarrow> v \<noteq> VNull"
    and "json_Marshal v = Inl e"
  shows "\<exists>e' k' v'. MarshalJSON json_Marshal s = Inl e' \<and>
           (k', v') \<in> set s \<and> json_Marshal v' = Inl e'"
proof (cases "k = ''type''")
  case True
  have v: "map_index s ''type'' = v"
    using assms(1,2) True by (simp add: map_index_entry)
  then have "MarshalJSON json_Marshal s = Inl e"
    using MarshalJSON_fail_type[OF assms(1), of json_Marshal e] assms(3,4) True by simp
  with assms(2,4) show ?thesis by blast
next
  case False
  have v: "map_index s k = v"
    using assms(1,2) by (simp add: map_index_entry)
  have k: "k \<in> set (other_keys s)"
    using assms(2) False by (force simp: set_other_keys)
  have e: "json_Marshal (map_index s k) = Inl e"
    using v assms(4) by simp
  have "\<exists>k' e'. MarshalJSON json_Marshal s = Inl e' \<and>
          json_Marshal (map_index s k') = Inl e' \<and>
          (k' \<in> set (other_keys s) \<or> k' = ''type'' \<and> map_index s ''type'' \<noteq> VNull)"
    using assms(1) k e by (rule MarshalJSON_fail_other)
  then obtain k' e' where r: "MarshalJSON json_Marshal s = Inl e'"
    and e': "json_Marshal (map_index s k') = Inl e'"
    and k': "k' \<in> set (other_keys s) \<or> k' = ''type'' \<and> map_index s ''type'' \<noteq> VNull"
    by blast
  have "(k', map_index s k') \<in> set s"
    using k' by (auto simp: set_other_keys intro: map_index_key map_index_not_nil)
  with r e' show ?thesis by blast
qed

theorem MarshalJSON_fails_whole_witness:
  "MarshalJSON demo_Marshal
     [(''b'', VInt 7), (''type'', VString ''t''), (''a'', VString ''x'')] =
   Inl ''json: unsupported value'' \<and>
   MarshalJSON demo_Marshal [(''type'', VSeq []), (''a'', VString ''x'')] =
   Inl ''json: unsupported value''"
proof -
  let ?s = "[(''b'', VInt 7), (''type'', VString ''t''), (''a'', VString ''x'')]"
  let ?s' = "[(''type'', VSeq []), (''a'', VString ''x'')]"
  have "\<exists>e' k' v'. MarshalJSON demo_Marshal ?s = Inl e' \<and> (k', v') \<in> set ?s \<and>
          demo_Marshal v' = Inl e'"
    by (rule MarshalJSON_fails_whole[where k = "''b''" and v = "VInt 7"]) simp_all
  moreover have "\<exists>e' k' v'. MarshalJSON demo_Marshal ?s' = Inl e' \<and> (k', v') \<in> set ?s' \<and>
          demo_Marshal v' = Inl e'"
    by (rule MarshalJSON_fails_whole[where k = "''type''" and v = "VSeq []"]) simp_all
  ultimately show ?thesis by auto
qed

text \<open>
  C7. A record with no \<open>type\<close> value (the key is missing, or its value is \<open>nil\<close>) and
  no other key is rendered as the two bytes \<open>{}\<close>. In general, when the values encode,
  the output is the template of the specification: the brace, the \<open>"type":V\<close> pair when
  the type value is not \<open>nil\<close>, the other pairs in ascending key order, single commas
  between neighbouring pairs only, the closing brace, and no other byte.
\<close>

theorem MarshalJSON_template:
  assumes "distinct (map fst s)"
  shows "((map_of s ''type'' = None \<or> map_of s ''type'' = Some VNull) \<and>
          fst ` set s \<subseteq> {''type''} \<longrightarrow>
            MarshalJSON json_Marshal s = Inr ''{}'') \<and>
         ((map_index s ''type'' \<noteq> VNull \<longrightarrow> json_Marshal (map_index s ''type'') = Inr V) \<and>
          (\<forall>k\<in>set (other_keys s). json_Marshal (map_index s k) = Inr (val k)) \<longrightarrow>
            MarshalJSON json_Marshal s =
              Inr (FormatB (if map_index s ''type'' = VNull then None else Some V)
                     (map (\<lambda>k. (k, val k)) (other_keys s))))"
proof (intro conjI impI)
  assume a: "(map_of s ''type'' = None \<or> map_of s ''type'' = Some VNull) \<and>
             fst ` set s \<subseteq> {''type''}"
  then have n: "map_index s ''type'' = VNull"
    by (auto simp: map_index_def)
  from a have "set (other_keys s) = {}"
    by (auto simp: set_other_keys)
  then have ks: "other_keys s = []" by simp
  show "MarshalJSON json_Marshal s = Inr ''{}''"
    using assms n ks by (simp add: MarshalJSON_unfold write_type_def)
next
  assume "(map_index s ''type'' \<noteq> VNull \<longrightarrow> json_Marshal (map_index s ''type'') = Inr V) \<and>
          (\<forall>k\<in>set (other_keys s). json_Marshal (map_index s k) = Inr (val k))"
  then show "MarshalJSON json_Marshal s =
              Inr (FormatB (if map_index s ''type'' = VNull then None else Some V)
                     (map (\<lambda>k. (k, val k)) (other_keys s)))"
    using assms by (intro MarshalJSON_layout) simp_all
qed

theorem MarshalJSON_template_witness:
  "MarshalJSON demo_Marshal [] = Inr ''{}'' \<and>
   MarshalJSON demo_Marshal [(''type'', VNull)] = Inr ''{}'' \<and>
   MarshalJSON demo_Marshal [(''http'', VString ''x''), (''type'', VString ''http'')] =
     Inr (FormatB (Some ''\"http\"'') [(''http'', ''\"x\"'')]) \<and>
   FormatB (Some ''\"http\"'') [(''http'', ''\"x\"'')] = ''{\"type\":\"http\",\"http\":\"x\"}'' \<and>
   MarshalJSON demo_Marshal [(''type'', VString ''noop'')] = Inr ''{\"type\":\"noop\"}''"
proof -
  let ?s = "[(''http'', VString ''x''), (''type'', VString ''http'')]"
  let ?n = "[(''type'', VString ''noop'')]"
  have d: "distinct (map fst ?s)" by simp
  have ks: "other_keys ?s = [''http'']"
    using sort_other_keys[OF d] by simp
  have kn: "other_keys ?n = []"
    using sort_other_keys[of ?n] by simp
  have 1: "MarshalJSON demo_Marshal [] = Inr ''{}''"
    using MarshalJSON_template[of "[]" demo_Marshal] by simp
  have 2: "MarshalJSON demo_Marshal [(''type'', VNull)] = Inr ''{}''"
    using MarshalJSON_template[of "[(''type'', VNull)]" demo_Marshal] by simp
  have 3: "MarshalJSON demo_Marshal ?s = Inr (FormatB (Some ''\"http\"'') [(''http'', ''\"x\"'')])"
    using MarshalJSON_template[OF d, of demo_Marshal "''\"http\"''" "\<lambda>k. ''\"x\"''"] ks
    by (simp add: map_index_def)
  have 4: "MarshalJSON demo_Marshal ?n = Inr ''{\"type\":\"noop\"}''"
    using MarshalJSON_template[of ?n demo_Marshal "''\"noop\"''" "\<lambda>k. []"] kn
    by (simp add: map_index_def FormatB_def json_pair_def)
  have 5: "FormatB (Some ''\"http\"'') [(''http'', ''\"x\"'')] = ''{\"type\":\"http\",\"http\":\"x\"}''"
    by (simp add: FormatB_def json_pair_def)
  from 1 2 3 4 5 show ?thesis by blast
qed

subsection \<open>MarshalJSON: a nil type value, and keys written as they are\<close>





lemma json_member_any_bytes: "json_member wfv m \<Longrightarrow> json_member any_bytes m"
  unfolding json_member_def any_bytes_def by (elim exE conjE, intro exI conjI TrueI)

lemma json_object_any_bytes:
  assumes "json_object wfv s"
  shows "json_object any_bytes s"
proof -
  from assms consider
    (empty) "\<exists>w. json_ws w \<and> s = ''{'' @ w @ ''}''"
  | (members) "\<exists>ms. ms \<noteq> [] \<and> list_all (json_member wfv) ms \<and> s = ''{'' @ comma_join ms @ ''}''"
    unfolding json_object_def by (rule disjE)
  then show ?thesis
  proof cases
    case empty
    then show ?thesis unfolding json_object_def by (rule disjI1)
  next
    case members
    then obtain ms where ms: "ms \<noteq> []" "list_all (json_member wfv) ms"
      "s = ''{'' @ comma_join ms @ ''}''"
      by (elim exE conjE)
    from ms(2) have "list_all (json_member any_bytes) ms"
      by (auto simp: list_all_iff intro: json_member_any_bytes)
    with ms(1,3) show ?thesis
      unfolding json_object_def by (intro disjI2 exI[of _ ms] conjI)
  qed
qed





text \<open>
  C10. \<open>MarshalJSON\<close> writes a non-type key as it is, between two double quotes and
  followed by a colon and the encoded value; only the value goes through
  \<open>json.Marshal\<close>. So the bytes of every non-type key stand in the output unchanged,
  a double quote or a backslash in the key included.
\<close>

theorem MarshalJSON_key_verbatim:
  assumes "distinct (map fst s)"
    and "(k, v) \<in> set s" and "k \<noteq> ''type''"
    and "MarshalJSON json_Marshal s = Inr out"
  shows "\<exists>V pre post. json_Marshal v = Inr V \<and> out = pre @ ''\"'' @ k @ ''\":'' @ V @ post"
proof -
  have v: "map_index s k = v"
    using assms(1,2) by (simp add: map_index_entry)
  have k: "k \<in> set (other_keys s)"
    using assms(2,3) by (force simp: set_other_keys)
  obtain V where V: "json_Marshal v = Inr V"
    using MarshalJSON_Inr_others[OF assms(1,4) k] v by auto
  let ?val = "\<lambda>k. projr (json_Marshal (map_index s k))"
  let ?pairs = "map (\<lambda>k. json_pair k (?val k)) (other_keys s)"
  have m: "map (\<lambda>(k, V). json_pair k V) (map (\<lambda>k. (k, ?val k)) (other_keys s)) = ?pairs"
    by (simp add: comp_def)
  have "json_pair k V \<in> set ?pairs"
    using k v V by force
  then obtain p q where pq: "comma_join ?pairs = p @ json_pair k V @ q"
    using comma_join_elem by blast
  obtain tb where "out = FormatB tb (map (\<lambda>k. (k, ?val k)) (other_keys s))"
    using MarshalJSON_Inr_layout[OF assms(1,4)] by blast
  then have "\<exists>h. out = h @ comma_join ?pairs @ ''}''"
  proof (cases tb)
    case None
    assume "out = FormatB tb (map (\<lambda>k. (k, ?val k)) (other_keys s))"
    with None have "out = ''{'' @ comma_join ?pairs @ ''}''"
      by (simp only: FormatB_None m)
    then show ?thesis by blast
  next
    case (Some T)
    assume "out = FormatB tb (map (\<lambda>k. (k, ?val k)) (other_keys s))"
    with Some have "out = ''{\"type\":'' @ T @
        (if map (\<lambda>k. (k, ?val k)) (other_keys s) = [] then ''''
         else '','' @ comma_join ?pairs) @ ''}''"
      by (simp only: FormatB_Some m)
    moreover have "map (\<lambda>k. (k, ?val k)) (other_keys s) \<noteq> []"
      using k by auto
    ultimately have "out = (''{\"type\":'' @ T @ '','') @ comma_join ?pairs @ ''}''"
      by simp
    then show ?thesis by blast
  qed
  then obtain h where "out = h @ comma_join ?pairs @ ''}''" by blast
  with pq have "out = (h @ p) @ ''\"'' @ k @ ''\":'' @ V @ (q @ ''}'')"
    by (simp add: json_pair_def)
  with V show ?thesis by blast
qed

theorem MarshalJSON_key_verbatim_witness:
  "MarshalJSON demo_Marshal [(''a\"'' @ [CHR 0x5C] @ ''c'', VBool True), (''type'', VString ''t'')] =
     Inr (''{\"type\":\"t\",\"a\"'' @ [CHR 0x5C] @ ''c\":true}'') \<and>
   (\<exists>V pre post. demo_Marshal (VBool True) = Inr V \<and>
      ''{\"type\":\"t\",\"a\"'' @ [CHR 0x5C] @ ''c\":true}'' =
      pre @ ''\"'' @ (''a\"'' @ [CHR 0x5C] @ ''c'') @ ''\":'' @ V @ post)"
proof -
  let ?k = "''a\"'' @ [CHR 0x5C] @ ''c''"
  let ?s = "[(?k, VBool True), (''type'', VString ''t'')]"
  have run: "MarshalJSON demo_Marshal ?s =
             Inr (''{\"type\":\"t\",\"a\"'' @ [CHR 0x5C] @ ''c\":true}'')"
    by (simp add: MarshalJSON_def write_type_def map_index_def)
  have d: "distinct (map fst ?s)" by simp
  have m: "(?k, VBool True) \<in> set ?s" by simp
  have n: "?k \<noteq> ''type''" by simp
  from MarshalJSON_key_verbatim[OF d m n run] run show ?thesis by simp
qed

subsection \<open>SanitizeComponent\<close>

lemma SanitizeComponent_Inr_D:
  assumes "SanitizeComponent yaml_Marshal yaml_Unmarshal conf = Inr r"
  shows "\<exists>cBytes hashMap typeStr. yaml_Marshal conf = Inr cBytes \<and>
           yaml_Unmarshal cBytes = Inr hashMap \<and> hashMap ''type'' = Some (VString typeStr)"
  using assms
  by (auto simp: SanitizeComponent_def split: sum.splits option.splits gvalue.splits)

text \<open>
  C1. On a generic record with the string \<open>typeStr\<close> under \<open>type\<close>,
  \<open>SanitizeComponent\<close> succeeds and picks the payload in this order. If the record has
  the key \<open>typeStr\<close>, the result is \<open>type\<close> together with that entry under the same key,
  and the \<open>plugin\<close> entry is left out (unless \<open>plugin\<close> is itself the discriminant).
  Otherwise, if the record has a \<open>plugin\<close> entry that is not \<open>nil\<close>, the result is
  \<open>type\<close> together with that entry under \<open>plugin\<close>. Otherwise the result has the key
  \<open>type\<close> and no other.
\<close>

theorem SanitizeComponent_payload:
  assumes "yaml_Marshal conf = Inr cBytes"
    and "yaml_Unmarshal cBytes = Inr hashMap"
    and "hashMap ''type'' = Some (VString typeStr)"
  shows "\<exists>r. SanitizeComponent yaml_Marshal yaml_Unmarshal conf = Inr r \<and>
           (\<forall>v. hashMap typeStr = Some v \<longrightarrow>
              map_of r = [''type'' \<mapsto> VString typeStr, typeStr \<mapsto> v] \<and>
              (typeStr \<noteq> ''plugin'' \<longrightarrow> map_of r ''plugin'' = None)) \<and>
           (\<forall>p. hashMap typeStr = None \<and> hashMap ''plugin'' = Some p \<and> p \<noteq> VNull \<longrightarrow>
              map_of r = [''type'' \<mapsto> VString typeStr, ''plugin'' \<mapsto> p]) \<and>
           (hashMap typeStr = None \<and>
            (hashMap ''plugin'' = None \<or> hashMap ''plugin'' = Some VNull) \<longrightarrow>
              map_of r = [''type'' \<mapsto> VString typeStr] \<and> fst ` set r = {''type''})"
proof (cases "hashMap typeStr")
  case (Some v)
  have "SanitizeComponent yaml_Marshal yaml_Unmarshal conf =
        Inr (AList.update typeStr v [(''type'', VString typeStr)])"
    using assms Some by (simp add: SanitizeComponent_def)
  moreover have "map_of (AList.update typeStr v [(''type'', VString typeStr)]) =
                 [''type'' \<mapsto> VString typeStr, typeStr \<mapsto> v]"
    by (auto simp: update_conv' fun_eq_iff)
  ultimately show ?thesis using Some by auto
next
  case None
  show ?thesis
  proof (cases "hashMap ''plugin''")
    case pn: None
    then show ?thesis
      using assms None by (simp add: SanitizeComponent_def)
  next
    case (Some p)
    then show ?thesis
      using assms None
      by (cases "p = VNull") (auto simp: SanitizeComponent_def)
  qed
qed


theorem SanitizeComponent_payload_witness:
  "(\<exists>r. SanitizeComponent (\<lambda>c::unit. Inr ''doc'' :: unit + string)
          (\<lambda>b. Inr [''type'' \<mapsto> VString ''http'',
                      ''http'' \<mapsto> VMap [(VString ''url'', VString ''x'')],
                      ''plugin'' \<mapsto> VMap [(VString ''ignored'', VBool True)]]) () = Inr r \<and>
        map_of r = [''type'' \<mapsto> VString ''http'',
                    ''http'' \<mapsto> VMap [(VString ''url'', VString ''x'')]] \<and>
        map_of r ''plugin'' = None) \<and>
   (\<exists>r. SanitizeComponent (\<lambda>c::unit. Inr ''doc'' :: unit + string)
          (\<lambda>b. Inr [''type'' \<mapsto> VString ''custom'',
                      ''plugin'' \<mapsto> VMap [(VString ''driver'', VString ''z'')]]) () = Inr r \<and>
        map_of r = [''type'' \<mapsto> VString ''custom'',
                    ''plugin'' \<mapsto> VMap [(VString ''driver'', VString ''z'')]]) \<and>
   (\<exists>r. SanitizeComponent (\<lambda>c::unit. Inr ''doc'' :: unit + string)
          (\<lambda>b. Inr [''type'' \<mapsto> VString ''noop'', ''plugin'' \<mapsto> VNull]) () = Inr r \<and>
        map_of r = [''type'' \<mapsto> VString ''noop''] \<and> fst ` set r = {''type''})"
proof -
  let ?ym = "\<lambda>c::unit. Inr ''doc'' :: unit + string"
  let ?h1 = "[''type'' \<mapsto> VString ''http'',
              ''http'' \<mapsto> VMap [(VString ''url'', VString ''x'')],
              ''plugin'' \<mapsto> VMap [(VString ''ignored'', VBool True)]]"
  let ?h2 = "[''type'' \<mapsto> VString ''custom'',
              ''plugin'' \<mapsto> VMap [(VString ''driver'', VString ''z'')]]"
  let ?h3 = "[''type'' \<mapsto> VString ''noop'', ''plugin'' \<mapsto> VNull]"
  have 1: "?h1 ''type'' = Some (VString ''http'')"
    and 2: "?h2 ''type'' = Some (VString ''custom'')"
    and 3: "?h3 ''type'' = Some (VString ''noop'')"
    by simp_all
  have w1: "\<exists>r. SanitizeComponent ?ym (\<lambda>b. Inr ?h1) () = Inr r \<and>
        map_of r = [''type'' \<mapsto> VString ''http'',
                    ''http'' \<mapsto> VMap [(VString ''url'', VString ''x'')]] \<and>
        map_of r ''plugin'' = None"
    using SanitizeComponent_payload[of ?ym "()" "''doc''" "\<lambda>b. Inr ?h1" ?h1 "''http''",
        OF refl refl 1]
    by simp
  have w2: "\<exists>r. SanitizeComponent ?ym (\<lambda>b. Inr ?h2) () = Inr r \<and>
        map_of r = [''type'' \<mapsto> VString ''custom'',
                    ''plugin'' \<mapsto> VMap [(VString ''driver'', VString ''z'')]]"
    using SanitizeComponent_payload[of ?ym "()" "''doc''" "\<lambda>b. Inr ?h2" ?h2 "''custom''",
        OF refl refl 2]
    by simp
  have w3: "\<exists>r. SanitizeComponent ?ym (\<lambda>b. Inr ?h3) () = Inr r \<and>
        map_of r = [''type'' \<mapsto> VString ''noop''] \<and> fst ` set r = {''type''}"
    using SanitizeComponent_payload[of ?ym "()" "''doc''" "\<lambda>b. Inr ?h3" ?h3 "''noop''",
        OF refl refl 3]
    by simp
  show ?thesis by (rule conjI[OF w1 conjI[OF w2 w3]])
qed

text \<open>
  C3. \<open>SanitizeComponent\<close> returns the error "attempted to sanitize config without a
  type field" exactly when both YAML calls succeed and the generic record has no string
  under \<open>type\<close>: the key is missing, or its value is not a string. The result is then
  the error alone, with no record.
\<close>

theorem SanitizeComponent_no_type:
  "SanitizeComponent yaml_Marshal yaml_Unmarshal conf = Inl ErrNoTypeField \<longleftrightarrow>
   (\<exists>cBytes hashMap. yaml_Marshal conf = Inr cBytes \<and> yaml_Unmarshal cBytes = Inr hashMap \<and>
      (hashMap ''type'' = None \<or>
       (\<exists>v. hashMap ''type'' = Some v \<and> (\<forall>typeStr. v \<noteq> VString typeStr))))"
  by (auto simp: SanitizeComponent_def Let_def split: sum.splits option.splits gvalue.splits)

theorem SanitizeComponent_no_type_witness:
  "SanitizeComponent (\<lambda>c::unit. Inr ''doc'' :: unit + string) (\<lambda>b. Inr Map.empty) () =
     Inl ErrNoTypeField \<and>
   SanitizeComponent (\<lambda>c::unit. Inr ''doc'' :: unit + string)
     (\<lambda>b. Inr [''type'' \<mapsto> VInt 5, ''5'' \<mapsto> VNull]) () = Inl ErrNoTypeField \<and>
   SanitizeComponent (\<lambda>c::unit. Inr ''doc'' :: unit + string)
     (\<lambda>b. Inr [''type'' \<mapsto> VString ''noop'']) () \<noteq> Inl ErrNoTypeField \<and>
   SanitizeComponent (\<lambda>c::unit. Inr ''doc'' :: unit + string) (\<lambda>b. Inl ()) () \<noteq>
     Inl ErrNoTypeField"
proof -
  let ?ym = "\<lambda>c::unit. Inr ''doc'' :: unit + string"
  have 1: "SanitizeComponent ?ym (\<lambda>b. Inr Map.empty) () = Inl ErrNoTypeField"
    using SanitizeComponent_no_type[of ?ym "\<lambda>b. Inr Map.empty" "()"] by simp
  have 2: "SanitizeComponent ?ym (\<lambda>b. Inr [''type'' \<mapsto> VInt 5, ''5'' \<mapsto> VNull]) () =
           Inl ErrNoTypeField"
    using SanitizeComponent_no_type[of ?ym
        "\<lambda>b. Inr [''type'' \<mapsto> VInt 5, ''5'' \<mapsto> VNull]" "()"]
    by simp
  have 3: "SanitizeComponent ?ym (\<lambda>b. Inr [''type'' \<mapsto> VString ''noop'']) () \<noteq>
           Inl ErrNoTypeField"
    using SanitizeComponent_no_type[of ?ym "\<lambda>b. Inr [''type'' \<mapsto> VString ''noop'']" "()"]
    by simp
  have 4: "SanitizeComponent ?ym (\<lambda>b. Inl ()) () \<noteq> Inl ErrNoTypeField"
    using SanitizeComponent_no_type[of ?ym "\<lambda>b. Inl ()" "()"] by simp
  show ?thesis by (rule conjI[OF 1 conjI[OF 2 conjI[OF 3 4]]])
qed

text \<open>
  C4. Every record that \<open>SanitizeComponent\<close> returns has the key \<open>type\<close> with a string
  value, and at most two keys: \<open>type\<close> and at most one other key.
\<close>

theorem SanitizeComponent_shape:
  assumes "SanitizeComponent yaml_Marshal yaml_Unmarshal conf = Inr r"
  shows "(\<exists>typeStr. map_of r ''type'' = Some (VString typeStr)) \<and>
         distinct (map fst r) \<and> length r \<le> 2 \<and> card (fst ` set r) \<le> 2 \<and>
         (\<exists>k. fst ` set r \<subseteq> {''type'', k})"
proof -
  obtain cBytes hashMap typeStr where h: "yaml_Marshal conf = Inr cBytes"
    "yaml_Unmarshal cBytes = Inr hashMap" "hashMap ''type'' = Some (VString typeStr)"
    using SanitizeComponent_Inr_D[OF assms] by blast
  let ?t = "(''type'', VString typeStr)"
  have "r = [?t] \<or> (\<exists>k v. k \<noteq> ''type'' \<and> r = [?t, (k, v)])"
  proof (cases "hashMap typeStr")
    case None
    show ?thesis
    proof (cases "hashMap ''plugin''")
      case pn: None
      then show ?thesis
        using assms h None by (simp add: SanitizeComponent_def Let_def)
    next
      case (Some p)
      show ?thesis
      proof (cases "p = VNull")
        case True
        then have "r = [?t]"
          using assms h None Some by (simp add: SanitizeComponent_def Let_def)
        then show ?thesis by simp
      next
        case False
        then have "r = [?t, (''plugin'', p)]"
          using assms h None Some by (simp add: SanitizeComponent_def Let_def)
        then have "''plugin'' \<noteq> ''type'' \<and> r = [?t, (''plugin'', p)]" by simp
        then have "\<exists>k v. k \<noteq> ''type'' \<and> r = [?t, (k, v)]" by (intro exI)
        then show ?thesis by (rule disjI2)
      qed
    qed
  next
    case (Some v)
    then have r: "r = AList.update typeStr v [?t]"
      using assms h by (simp add: SanitizeComponent_def Let_def)
    show ?thesis
    proof (cases "typeStr = ''type''")
      case True
      with Some h(3) have "v = VString typeStr" by simp
      with r True show ?thesis by simp
    next
      case False
      with r show ?thesis by auto
    qed
  qed
  then show ?thesis
  proof
    assume "r = [?t]"
    then show ?thesis by auto
  next
    assume "\<exists>k v. k \<noteq> ''type'' \<and> r = [?t, (k, v)]"
    then obtain k v where "k \<noteq> ''type''" "r = [?t, (k, v)]" by blast
    then show ?thesis by (auto simp: card_insert_if)
  qed
qed

theorem SanitizeComponent_shape_witness:
  "SanitizeComponent (\<lambda>c::unit. Inr ''doc'' :: unit + string)
     (\<lambda>b. Inr [''type'' \<mapsto> VString ''http'', ''http'' \<mapsto> VNull, ''plugin'' \<mapsto> VBool True,
                 ''extra'' \<mapsto> VInt 1]) () =
     Inr [(''type'', VString ''http''), (''http'', VNull)] \<and>
   card (fst ` set [(''type'', VString ''http''), (''http'', VNull :: gvalue)]) \<le> 2"
proof -
  let ?ym = "\<lambda>c::unit. Inr ''doc'' :: unit + string"
  let ?yu = "\<lambda>b::string. Inr [''type'' \<mapsto> VString ''http'', ''http'' \<mapsto> VNull,
               ''plugin'' \<mapsto> VBool True, ''extra'' \<mapsto> VInt 1] :: unit + (string \<rightharpoonup> gvalue)"
  have run: "SanitizeComponent ?ym ?yu () = Inr [(''type'', VString ''http''), (''http'', VNull)]"
    by (simp add: SanitizeComponent_def)
  from SanitizeComponent_shape[OF run] run show ?thesis by simp
qed

subsection \<open>MarshalYAML\<close>

lemma range_yaml_type:
  "distinct (map fst s) \<Longrightarrow>
   snd (range_yaml s (d, tv)) = (case map_of s ''type'' of None \<Rightarrow> tv | Some v \<Rightarrow> v)"
proof (induction s arbitrary: d tv)
  case Nil
  then show ?case by simp
next
  case (Cons p s)
  obtain k v where p: "p = (k, v)" by (cases p)
  show ?case
  proof (cases "k = ''type''")
    case True
    with Cons.prems p have "''type'' \<notin> fst ` set s" by auto
    then have "map_of s ''type'' = None" by (simp add: map_of_eq_None_iff)
    with Cons p True show ?thesis by simp
  next
    case False
    with Cons p show ?thesis by simp
  qed
qed

lemma range_yaml_distinct:
  "distinct (map fst d) \<Longrightarrow> distinct (map fst (fst (range_yaml s (d, tv))))"
  by (induction s arbitrary: d tv) (auto simp: distinct_update)

lemma range_yaml_dynObj:
  "distinct (map fst s) \<Longrightarrow>
   map_of (fst (range_yaml s (d, tv))) = map_of d ++ (map_of s)(''type'' := None)"
proof (induction s arbitrary: d tv)
  case Nil
  then show ?case by simp
next
  case (Cons p s)
  obtain k v where p: "p = (k, v)" by (cases p)
  from Cons.prems p have k: "map_of s k = None"
    by (simp add: map_of_eq_None_iff)
  from Cons.prems have ds: "distinct (map fst s)" by simp
  show ?case
  proof (cases "k = ''type''")
    case True
    have eq: "(map_of s)(''type'' := None) = (map_of (p # s))(''type'' := None)"
      using p True by (simp add: fun_eq_iff)
    have "map_of (fst (range_yaml (p # s) (d, tv))) = map_of (fst (range_yaml s (d, v)))"
      using p True by simp
    also have "\<dots> = map_of d ++ (map_of s)(''type'' := None)"
      by (rule Cons.IH[OF ds])
    also have "\<dots> = map_of d ++ (map_of (p # s))(''type'' := None)"
      by (simp only: eq)
    finally show ?thesis .
  next
    case False
    have eq: "map_of (AList.update k v d) ++ (map_of s)(''type'' := None) =
          map_of d ++ (map_of (p # s))(''type'' := None)"
      using p k False by (auto simp: update_conv' fun_eq_iff map_add_def split: option.splits)
    have "map_of (fst (range_yaml (p # s) (d, tv))) =
          map_of (fst (range_yaml s (AList.update k v d, tv)))"
      using p False by simp
    also have "\<dots> = map_of (AList.update k v d) ++ (map_of s)(''type'' := None)"
      by (rule Cons.IH[OF ds])
    also have "\<dots> = map_of d ++ (map_of (p # s))(''type'' := None)"
      by (rule eq)
    finally show ?thesis .
  qed
qed

text \<open>
  C8. \<open>MarshalYAML\<close> never fails, and the struct it hands to the YAML encoder always has
  the field \<open>type\<close> as its first declared field, whatever the record holds: the field
  carries the record's type value, and it is there with the value \<open>nil\<close> when the type
  value is \<open>nil\<close> or the key is missing. The second and last field is the inlined map,
  which holds every other entry of the record and no entry named \<open>type\<close>.
\<close>

theorem MarshalYAML_type_first:
  assumes "distinct (map fst s)"
  shows "\<exists>dynObj. MarshalYAML s = Inr [NamedField ''type'' (map_index s ''type''), InlineMap dynObj] \<and>
           distinct (map fst dynObj) \<and>
           map_of dynObj = (map_of s)(''type'' := None)"
proof -
  obtain dynObj typeVal where r: "range_yaml s ([], VNull) = (dynObj, typeVal)"
    by (cases "range_yaml s ([], VNull)")
  have "typeVal = map_index s ''type''"
    using range_yaml_type[OF assms, of "[]" VNull] r by (simp add: map_index_def)
  moreover have "distinct (map fst dynObj)"
    using range_yaml_distinct[of "[]" s VNull] r by simp
  moreover have "map_of dynObj = (map_of s)(''type'' := None)"
    using range_yaml_dynObj[OF assms, of "[]" VNull] r by simp
  ultimately show ?thesis
    using r by (simp add: MarshalYAML_def)
qed

theorem MarshalYAML_type_first_witness:
  "(MarshalYAML [(''http'', VString ''x''), (''type'', VString ''http'')] :: unit + yaml_field list) =
     Inr [NamedField ''type'' (VString ''http''), InlineMap [(''http'', VString ''x'')]] \<and>
   (MarshalYAML [(''type'', VNull), (''a'', VBool True)] :: unit + yaml_field list) =
     Inr [NamedField ''type'' VNull, InlineMap [(''a'', VBool True)]] \<and>
   (MarshalYAML [(''a'', VBool True)] :: unit + yaml_field list) =
     Inr [NamedField ''type'' VNull, InlineMap [(''a'', VBool True)]] \<and>
   (MarshalYAML [] :: unit + yaml_field list) = Inr [NamedField ''type'' VNull, InlineMap []]"
proof -
  have 1: "(MarshalYAML [(''http'', VString ''x''), (''type'', VString ''http'')]
             :: unit + yaml_field list) =
           Inr [NamedField ''type'' (VString ''http''), InlineMap [(''http'', VString ''x'')]]"
    using MarshalYAML_type_first[of "[(''http'', VString ''x''), (''type'', VString ''http'')]",
        where ?'a = unit]
    by (simp add: MarshalYAML_def)
  have 2: "(MarshalYAML [(''type'', VNull), (''a'', VBool True)] :: unit + yaml_field list) =
           Inr [NamedField ''type'' VNull, InlineMap [(''a'', VBool True)]]"
    using MarshalYAML_type_first[of "[(''type'', VNull), (''a'', VBool True)]", where ?'a = unit]
    by (simp add: MarshalYAML_def)
  have 3: "(MarshalYAML [(''a'', VBool True)] :: unit + yaml_field list) =
           Inr [NamedField ''type'' VNull, InlineMap [(''a'', VBool True)]]"
    using MarshalYAML_type_first[of "[(''a'', VBool True)]", where ?'a = unit]
    by (simp add: MarshalYAML_def)
  have 4: "(MarshalYAML [] :: unit + yaml_field list) = Inr [NamedField ''type'' VNull, InlineMap []]"
    using MarshalYAML_type_first[of "[]", where ?'a = unit]
    by (simp add: MarshalYAML_def)
  show ?thesis by (rule conjI[OF 1 conjI[OF 2 conjI[OF 3 4]]])
qed

end
